theory Spec2Isabelle
  imports
    Complex_Main
    "HOL-Library.Multiset"
    "HOL-Library.AList"
    "HOL-Library.Char_ord"
    "HOL-Library.List_Lexorder"
begin

section \<open>Python scaffolding\<close>

text \<open>
  The exceptions the modelled functions of \<^verbatim>\<open>kerncraft/models/benchmark.py\<close> can let
  escape. Exceptions the source catches itself (\<^verbatim>\<open>ValueError\<close> and \<^verbatim>\<open>IndexError\<close> in
  \<^verbatim>\<open>perfctr\<close>) are branches of the model and do not occur here.
\<close>

datatype py_error = AttributeError | KeyError | TypeError | ZeroDivisionError

text \<open>
  A Python \<^verbatim>\<open>str\<close> is a \<^typ>\<open>string\<close>, a list of 8-bit characters. The regular expressions
  of the source single out only ASCII characters (letters, digits, the dash, the
  brackets, the pipe, the newline); every other character is a literal to them.
\<close>

text \<open>
  A finite generator: the values it yields, in order, and the exception that ends the
  enumeration (\<open>None\<close> when it is exhausted normally). A consumer that stops early
  (\<^verbatim>\<open>break\<close>) never sees the exception.
\<close>

type_synonym 'a gen = "'a list \<times> py_error option"

text \<open>\<^verbatim>\<open>for x in xs: yield from body(x)\<close>: the first exception ends everything.\<close>

fun gen_for :: "'a list \<Rightarrow> ('a \<Rightarrow> 'b gen) \<Rightarrow> 'b gen" where
  "gen_for [] body = ([], None)"
| "gen_for (x # xs) body =
     (case body x of
        (ys, Some e) \<Rightarrow> (ys, Some e)
      | (ys, None) \<Rightarrow> (case gen_for xs body of (zs, e) \<Rightarrow> (ys @ zs, e)))"

text \<open>\<^verbatim>\<open>for r in g: yield f(r)\<close>, where \<open>f\<close> may raise.\<close>

fun yield_each :: "('a \<Rightarrow> py_error + 'b) \<Rightarrow> 'a list \<Rightarrow> py_error option \<Rightarrow> 'b gen" where
  "yield_each f [] e = ([], e)"
| "yield_each f (r # rs) e =
     (case f r of
        Inl err \<Rightarrow> ([], Some err)
      | Inr y \<Rightarrow> (case yield_each f rs e of (ys, e') \<Rightarrow> (y # ys, e')))"

text \<open>
  \<^verbatim>\<open>xs.index(x)\<close>: the first position of \<open>x\<close>. Python raises \<^verbatim>\<open>ValueError\<close> when \<open>x\<close> is
  absent; every call in the source looks up an element that is there.
\<close>

fun index_of :: "'a list \<Rightarrow> 'a \<Rightarrow> nat" where
  "index_of [] x = 0"
| "index_of (y # ys) x = (if y = x then 0 else Suc (index_of ys x))"

text \<open>\<^verbatim>\<open>s.split(sep)\<close> for a one-character separator.\<close>

fun str_split :: "char \<Rightarrow> string \<Rightarrow> string list" where
  "str_split sep [] = [[]]"
| "str_split sep (c # cs) =
     (if c = sep then [] # str_split sep cs
      else (case str_split sep cs of [] \<Rightarrow> [[c]] | w # ws \<Rightarrow> (c # w) # ws))"

section \<open>Register descriptors\<close>

subsection \<open>\<^verbatim>\<open>group_iterator\<close>\<close>

definition ordered_chars :: string where
  "ordered_chars = ''abcdefghijklmnopqrstuvwxyzABCDEFGHIJKLMNOPQRSTUVWXYZ0123456789''"

text \<open>The character class \<^verbatim>\<open>[a-zA-Z0-9]\<close>.\<close>

definition alnum :: "char \<Rightarrow> bool" where
  "alnum c = (c \<in> set ordered_chars)"

text \<open>
  \<^verbatim>\<open>for i in range(ordered_chars.index(start), ordered_chars.index(end) + 1):
      yield ordered_chars[i]\<close>
\<close>

definition char_range :: "char \<Rightarrow> char \<Rightarrow> string list" where
  "char_range start end' =
     map (\<lambda>i. [ordered_chars ! i])
       [index_of ordered_chars start ..< index_of ordered_chars end' + 1]"

text \<open>
  \<^verbatim>\<open>re.finditer\<close> over the tokenizer \<^verbatim>\<open>(?P<seq>[a-zA-Z0-9]-[a-zA-Z0-9])|(?P<chr>.)\<close>: at
  each position a three-character range is tried first, then any single character but
  the newline, which matches nothing and is skipped.
\<close>

fun group_iterator :: "string \<Rightarrow> string list" where
  "group_iterator (a # b # c # rest) =
     (if alnum a \<and> b = CHR ''-'' \<and> alnum c then char_range a c @ group_iterator rest
      else if a = CHR 0x0A then group_iterator (b # c # rest)
      else [a] # group_iterator (b # c # rest))"
| "group_iterator (a # rest) =
     (if a = CHR 0x0A then group_iterator rest else [a] # group_iterator rest)"
| "group_iterator [] = []"

subsection \<open>\<^verbatim>\<open>register_options\<close>\<close>

text \<open>
  \<^verbatim>\<open>re.match\<close> of the tokenizer \<^verbatim>\<open>\[(?P<grp>[^]]+)\]|(?P<chr>.)\<close> at the start of \<open>u\<close>: the
  matched token and \<^verbatim>\<open>u[m.end():]\<close>, or \<open>None\<close> when nothing matches (the empty string, a
  leading newline).
\<close>

datatype token = Grp string | Chr char

definition not_close :: "char \<Rightarrow> bool" where
  "not_close c = (c \<noteq> CHR '']'')"

definition tokenizer_match :: "string \<Rightarrow> (token \<times> string) option" where
  "tokenizer_match u =
     (case u of
        [] \<Rightarrow> None
      | c # cs \<Rightarrow>
          if c = CHR ''['' \<and> takeWhile not_close cs \<noteq> [] \<and> dropWhile not_close cs \<noteq> []
          then Some (Grp (takeWhile not_close cs), tl (dropWhile not_close cs))
          else if c = CHR 0x0A then None
          else Some (Chr c, cs))"

text \<open>\<^verbatim>\<open>c + r\<close>: a string and what the recursive call yielded.\<close>

definition str_add :: "string \<Rightarrow> string option \<Rightarrow> py_error + string option" where
  "str_add c r = (case r of None \<Rightarrow> Inl TypeError | Some s \<Rightarrow> Inr (Some (c @ s)))"

lemma gen_for_cong [fundef_cong]:
  "xs = ys \<Longrightarrow> (\<And>x. x \<in> set ys \<Longrightarrow> f x = g x) \<Longrightarrow> gen_for xs f = gen_for ys g"
  by (induction ys arbitrary: xs) (auto split: prod.splits option.splits)

lemma length_str_split: "u \<in> set (str_split sep s) \<Longrightarrow> length u \<le> length s"
proof (induction s arbitrary: u)
  case Nil
  then show ?case by simp
next
  case (Cons c cs)
  show ?case
  proof (cases "c = sep")
    case True
    with Cons show ?thesis by (auto intro: le_SucI)
  next
    case False
    with Cons show ?thesis
      by (cases "str_split sep cs") (auto intro: le_SucI)
  qed
qed

lemma length_tokenizer_match: "tokenizer_match u = Some (t, rest) \<Longrightarrow> length rest < length u"
proof -
  have "length (tl (dropWhile P xs)) \<le> length xs" for P and xs :: string
    by (induction xs) auto
  then show "tokenizer_match u = Some (t, rest) \<Longrightarrow> length rest < length u"
    by (auto simp: tokenizer_match_def less_Suc_eq_le split: list.splits if_splits)
qed

function register_options :: "string \<Rightarrow> string option gen" where
  "register_options regdescr =
     (case gen_for (str_split CHR ''|'' regdescr)
             (\<lambda>u. case tokenizer_match u of
                     None \<Rightarrow> ([], Some AttributeError)
                   | Some (tok, rest) \<Rightarrow>
                       gen_for (case tok of Grp g \<Rightarrow> group_iterator g | Chr c \<Rightarrow> [[c]])
                         (\<lambda>c. if rest \<noteq> []
                               then (case register_options rest of
                                       (rs, e) \<Rightarrow> yield_each (str_add c) rs e)
                               else ([Some c], None)))
      of (ys, e) \<Rightarrow> ((if regdescr = [] then [None] else []) @ ys, e))"
  by pat_completeness auto
termination
proof (relation "measure length", goal_cases)
  case 1
  show ?case by simp
next
  case (2 regdescr u tr tok rest c)
  then show ?case
    using length_str_split [of u "CHR ''|''" regdescr] length_tokenizer_match [of u tok rest]
    by simp
qed

declare register_options.simps [simp del]

section \<open>The minimal-run scheduler\<close>

text \<open>
  An event is the triple \<open>(event, registers, parameters)\<close>; a scheduled entry is
  \<open>(event, possible_reg, parameters)\<close>, where \<open>possible_reg\<close> is a value
  \<^verbatim>\<open>register_options\<close> yielded (\<open>None\<close> for Python's \<^verbatim>\<open>None\<close>). The scheduler never
  looks into the parameters: their type is a parameter, and HOL equality stands for
  Python's \<^verbatim>\<open>==\<close> on them.

  A Python dict is an association list in insertion order with distinct keys:
  \<^verbatim>\<open>d[k] = v\<close> is \<^const>\<open>AList.update\<close> (replace in place, or append), \<^verbatim>\<open>k in d\<close> is
  \<open>dict_in\<close>, \<^verbatim>\<open>d.values()\<close> is \<open>dict_values\<close>.
\<close>

type_synonym 'p event = "string \<times> string \<times> 'p"
type_synonym 'p placed = "string \<times> string option \<times> 'p"
type_synonym ('k, 'v) dict = "('k \<times> 'v) list"

definition dict_in :: "'k \<Rightarrow> ('k, 'v) dict \<Rightarrow> bool" where
  "dict_in k d = (map_of d k \<noteq> None)"

definition dict_values :: "('k, 'v) dict \<Rightarrow> 'v list" where
  "dict_values d = map snd d"

text \<open>\<^verbatim>\<open>d.setdefault(k, v)\<close>: the dict afterwards and the value returned.\<close>

definition setdefault :: "('k, 'v) dict \<Rightarrow> 'k \<Rightarrow> 'v \<Rightarrow> ('k, 'v) dict \<times> 'v" where
  "setdefault d k v = (case map_of d k of Some v' \<Rightarrow> (d, v') | None \<Rightarrow> (d @ [(k, v)], v))"

record 'p sched =
  scheduled_runs :: "(nat, (string option, 'p placed) dict) dict"
  scheduled_events :: "'p event list"

text \<open>
  \<^verbatim>\<open>events = [e for i, e in enumerate(events) if events.index(e) == i]\<close>
\<close>

definition dedup :: "'a list \<Rightarrow> 'a list" where
  "dedup events = map snd (filter (\<lambda>(i, e). index_of events e = i) (enumerate 0 events))"

text \<open>
  The loop \<^verbatim>\<open>for possible_reg in register_options(registers)\<close> over the values the
  generator yields; the flag tells whether the loop was left by \<^verbatim>\<open>break\<close>. The run dict
  \<open>s\<close> is an object inside \<open>scheduled_runs\<close>, so the store into \<open>s\<close> is written back.
\<close>

fun try_registers ::
  "nat \<Rightarrow> 'p event \<Rightarrow> string option list \<Rightarrow> 'p sched \<Rightarrow> 'p sched \<times> bool" where
  "try_registers cur_run event_tpl [] st = (st, False)"
| "try_registers cur_run event_tpl (possible_reg # regs) st =
     (case setdefault (scheduled_runs st) cur_run [] of
        (runs, s) \<Rightarrow>
          if \<not> dict_in possible_reg s
          then (\<lparr>scheduled_runs =
                    AList.update cur_run
                      (AList.update possible_reg
                         (fst event_tpl, possible_reg, snd (snd event_tpl)) s) runs,
                  scheduled_events = scheduled_events st @ [event_tpl]\<rparr>, True)
          else try_registers cur_run event_tpl regs (st\<lparr>scheduled_runs := runs\<rparr>))"

text \<open>
  One pass of the body of \<^verbatim>\<open>for event_tpl in events\<close>. When no yielded register is
  free the generator is resumed to its end, and the exception it ends with escapes.
\<close>

definition schedule_event :: "nat \<Rightarrow> 'p event \<Rightarrow> 'p sched \<Rightarrow> py_error + 'p sched" where
  "schedule_event cur_run event_tpl st =
     (if event_tpl \<in> set (scheduled_events st) then Inr st
      else (case register_options (fst (snd event_tpl)) of
              (regs, err) \<Rightarrow>
                (case try_registers cur_run event_tpl regs st of
                   (st', True) \<Rightarrow> Inr st'
                 | (st', False) \<Rightarrow> (case err of None \<Rightarrow> Inr st' | Some e \<Rightarrow> Inl e))))"

fun sweep :: "nat \<Rightarrow> 'p event list \<Rightarrow> 'p sched \<Rightarrow> py_error + 'p sched" where
  "sweep cur_run [] st = Inr st"
| "sweep cur_run (event_tpl # events) st =
     (case schedule_event cur_run event_tpl st of
        Inl e \<Rightarrow> Inl e
      | Inr st' \<Rightarrow> sweep cur_run events st')"

text \<open>
  \<^verbatim>\<open>while len(scheduled_events) != len(events)\<close>: the loop has no bound in the source,
  so not returning is the value \<open>None\<close>.
\<close>

partial_function (option) run_loop ::
  "'p event list \<Rightarrow> nat \<Rightarrow> 'p sched \<Rightarrow> (py_error + 'p sched) option" where
  "run_loop events cur_run st =
     (if length (scheduled_events st) \<noteq> length events
      then (case sweep cur_run events st of
              Inl e \<Rightarrow> Some (Inl e)
            | Inr st' \<Rightarrow> run_loop events (cur_run + 1) st')
      else Some (Inr st))"

declare run_loop.simps [code]

definition runs_of :: "'p sched \<Rightarrow> 'p placed list list" where
  "runs_of st = map dict_values (dict_values (scheduled_runs st))"

definition build_minimal_runs :: "'p event list \<Rightarrow> (py_error + 'p placed list list) option" where
  "build_minimal_runs events =
     (case run_loop (dedup events) 0 \<lparr>scheduled_runs = [], scheduled_events = []\<rparr> of
        None \<Rightarrow> None
      | Some (Inl e) \<Rightarrow> Some (Inl e)
      | Some (Inr st) \<Rightarrow> Some (Inr (runs_of st)))"

section \<open>Event strings\<close>

text \<open>
  The parameters of an event are \<^verbatim>\<open>None\<close> or a dict from parameter names to \<^verbatim>\<open>None\<close> or
  an \<^verbatim>\<open>int\<close> (Python's unbounded integers). The dict is its list of items; \<^verbatim>\<open>eventstr\<close>
  sorts them, so their order does not show in its result. (Python's \<^verbatim>\<open>==\<close> on dicts
  ignores the order of insertion; the scheduler's properties are proved for every type of
  parameters, whatever its equality.)
\<close>

type_synonym params = "(string, int option) dict option"

text \<open>\<^verbatim>\<open>hex(v)\<close>: sign, \<^verbatim>\<open>0x\<close>, and the lowercase digits of the magnitude.\<close>

definition hexdigit :: "nat \<Rightarrow> char" where
  "hexdigit d = ''0123456789abcdef'' ! d"

function hex_digits :: "nat \<Rightarrow> string" where
  "hex_digits n = (if n < 16 then [hexdigit n] else hex_digits (n div 16) @ [hexdigit (n mod 16)])"
  by pat_completeness auto
termination
  by (relation "measure id") auto

definition hex :: "int \<Rightarrow> string" where
  "hex v = (if v < 0 then ''-0x'' @ hex_digits (nat (- v)) else ''0x'' @ hex_digits (nat v))"

text \<open>\<^verbatim>\<open>sep.join(xs)\<close> on a list of strings.\<close>

fun join :: "string \<Rightarrow> string list \<Rightarrow> string" where
  "join sep [] = []"
| "join sep [x] = x"
| "join sep (x # y # ys) = x @ sep @ join sep (y # ys)"

text \<open>
  \<^verbatim>\<open>sorted(d.items())\<close>: the keys of a dict are distinct, so the order of the pairs is the
  order of the keys; Python compares strings by code point, character by character, as
  the lexicographic order on \<^typ>\<open>string\<close> does.
\<close>

definition sorted_items :: "(string, 'v) dict \<Rightarrow> (string \<times> 'v) list" where
  "sorted_items d = sort_key fst d"

text \<open>
  The loop body: \<^verbatim>\<open>if type(v) is int: k += "={}".format(hex(v))\<close>, then
  \<^verbatim>\<open>event_dscr.append(k)\<close>.
\<close>

definition param_dscr :: "string \<times> int option \<Rightarrow> string" where
  "param_dscr kv = (case snd kv of None \<Rightarrow> fst kv | Some v \<Rightarrow> fst kv @ ''='' @ hex v)"

text \<open>
  \<^verbatim>\<open>eventstr\<close> called with a three-element tuple, as \<^verbatim>\<open>analyze\<close> calls it on the entries
  of a run. \<^verbatim>\<open>":".join\<close> raises \<^verbatim>\<open>TypeError\<close> on a register that is \<^verbatim>\<open>None\<close>. An empty
  dict is falsy, like \<^verbatim>\<open>None\<close>.
\<close>

definition eventstr :: "string \<times> string option \<times> params \<Rightarrow> py_error + string" where
  "eventstr event_tuple =
     (case event_tuple of
        (event, register, parameters) \<Rightarrow>
          (case register of
             None \<Rightarrow> Inl TypeError
           | Some reg \<Rightarrow>
               Inr (join '':''
                 ([event, reg] @
                  (case parameters of
                     None \<Rightarrow> []
                   | Some d \<Rightarrow> if d = [] then [] else map param_dscr (sorted_items d))))))"

section \<open>Parsing the output of likwid-perfctr\<close>

text \<open>
  What \<^verbatim>\<open>perfctr\<close> stores under a name: a float (a derived metric) or a dict from register
  names to counter values. Python's \<^verbatim>\<open>float\<close> and \<^verbatim>\<open>int\<close> are not part of the repository:
  the two conversions are parameters \<open>to_float\<close> and \<open>to_int\<close> of the model, \<open>None\<close>
  standing for \<^verbatim>\<open>ValueError\<close>, and the type \<open>'f\<close> of floats is left open.
\<close>

datatype 'f result_value = Metric 'f | Counters "(string, int) dict"

type_synonym 'f results = "(string, 'f result_value) dict"

text \<open>\<^verbatim>\<open>re.fullmatch(r'[A-Z0-9_]+', s)\<close> and \<^verbatim>\<open>re.fullmatch(r'[A-Z0-9]+', s)\<close>.\<close>

definition fullmatch_event :: "string \<Rightarrow> bool" where
  "fullmatch_event s =
     (s \<noteq> [] \<and> list_all (\<lambda>c. c \<in> set ''ABCDEFGHIJKLMNOPQRSTUVWXYZ0123456789_'') s)"

definition fullmatch_register :: "string \<Rightarrow> bool" where
  "fullmatch_register s =
     (s \<noteq> [] \<and> list_all (\<lambda>c. c \<in> set ''ABCDEFGHIJKLMNOPQRSTUVWXYZ0123456789'') s)"

text \<open>
  The body of \<^verbatim>\<open>for line in output\<close>. An \<^verbatim>\<open>IndexError\<close> in the first \<^verbatim>\<open>try\<close> skips the line
  (\<^verbatim>\<open>continue\<close>); a \<^verbatim>\<open>ValueError\<close> there, and both in the second \<^verbatim>\<open>try\<close>, are passed over.
  The second \<^verbatim>\<open>try\<close> catches nothing else: the store
  \<^verbatim>\<open>results[line[0]][line[1]] = counter_value\<close> into a float raises \<^verbatim>\<open>TypeError\<close>.
\<close>

definition perfctr_line ::
  "(string \<Rightarrow> 'f option) \<Rightarrow> (string \<Rightarrow> int option) \<Rightarrow> 'f results \<Rightarrow> string
     \<Rightarrow> py_error + 'f results" where
  "perfctr_line to_float to_int results line0 =
     (let line = str_split CHR '','' line0 in
      if length line < 2 then Inr results
      else
        let results1 = (case to_float (line ! 1) of
                          Some x \<Rightarrow> AList.update (line ! 0) (Metric x) results
                        | None \<Rightarrow> results)
        in if length line < 3 then Inr results1
           else (case to_int (line ! 2) of
                   None \<Rightarrow> Inr results1
                 | Some counter_value \<Rightarrow>
                     if fullmatch_event (line ! 0) \<and> fullmatch_register (line ! 1)
                     then (case setdefault results1 (line ! 0) (Counters []) of
                             (results2, Metric x) \<Rightarrow> Inl TypeError
                           | (results2, Counters d) \<Rightarrow>
                               Inr (AList.update (line ! 0)
                                      (Counters (AList.update (line ! 1) counter_value d))
                                      results2))
                     else Inr results1))"

fun perfctr_lines ::
  "(string \<Rightarrow> 'f option) \<Rightarrow> (string \<Rightarrow> int option) \<Rightarrow> 'f results \<Rightarrow> string list
     \<Rightarrow> py_error + 'f results" where
  "perfctr_lines to_float to_int results [] = Inr results"
| "perfctr_lines to_float to_int results (line # output) =
     (case perfctr_line to_float to_int results line of
        Inl e \<Rightarrow> Inl e
      | Inr results' \<Rightarrow> perfctr_lines to_float to_int results' output)"

text \<open>Lines 240 to 261 of \<^verbatim>\<open>perfctr\<close>: the parse of the captured output.\<close>

definition perfctr_parse ::
  "(string \<Rightarrow> 'f option) \<Rightarrow> (string \<Rightarrow> int option) \<Rightarrow> string list \<Rightarrow> py_error + 'f results" where
  "perfctr_parse to_float to_int output = perfctr_lines to_float to_int [] output"

section \<open>The calibration loop of \<^verbatim>\<open>analyze\<close>\<close>

text \<open>
  Lines 271 to 286. Python floats and the integer repetition count are modelled by the
  reals they denote: rounding, the underflow of a quotient to zero and the
  \<^verbatim>\<open>OverflowError\<close> of converting a huge count to a float are not modelled. Comparisons
  with and divisions by an exact zero are the same in both. The probe run is a parameter: \<open>executor n\<close> is the runtime
  \<^verbatim>\<open>mem_results['Runtime (RDTSC) [s]']\<close> reported for \<open>n\<close> repetitions. The state is
  \<open>(runtime, time_per_repetition, repetitions)\<close>. Float floor division and float division
  raise \<^verbatim>\<open>ZeroDivisionError\<close> on a zero divisor.
\<close>

definition py_floordiv :: "real \<Rightarrow> real \<Rightarrow> py_error + real" where
  "py_floordiv a b = (if b = 0 then Inl ZeroDivisionError else Inr (of_int \<lfloor>a / b\<rfloor>))"

definition py_truediv :: "real \<Rightarrow> real \<Rightarrow> py_error + real" where
  "py_truediv a b = (if b = 0 then Inl ZeroDivisionError else Inr (a / b))"

partial_function (option) calibrate ::
  "(real \<Rightarrow> real) \<Rightarrow> real \<times> real \<times> real \<Rightarrow> (py_error + real \<times> real \<times> real) option" where
  "calibrate executor st =
     (case st of
        (runtime, time_per_repetition, repetitions) \<Rightarrow>
          if runtime < 15 / 100
          then (case (if time_per_repetition = 0
                      then py_floordiv (2 / 10) time_per_repetition
                      else Inr (repetitions * 10)) of
                  Inl e \<Rightarrow> Some (Inl e)
                | Inr repetitions' \<Rightarrow>
                    (case py_truediv (executor repetitions') repetitions' of
                       Inl e \<Rightarrow> Some (Inl e)
                     | Inr time_per_repetition' \<Rightarrow>
                         calibrate executor
                           (executor repetitions', time_per_repetition', repetitions')))
          else Some (Inr st))"

declare calibrate.simps [code]

definition calibration :: "(real \<Rightarrow> real) \<Rightarrow> (py_error + real \<times> real \<times> real) option" where
  "calibration executor = calibrate executor (0, (2 / 10) / 10, 10)"

section \<open>Matching measured counters to symbols\<close>

text \<open>
  Lines 313 to 319 of \<^verbatim>\<open>analyze\<close>. \<open>measured_ctrs\<close> is the combined mapping; the lookup
  \<^verbatim>\<open>measured_ctrs[event]\<close> raises \<^verbatim>\<open>KeyError\<close> on a missing event, and \<^verbatim>\<open>r in x\<close> raises
  \<^verbatim>\<open>TypeError\<close> when \<open>x\<close> is a float. The loop over the registers has no \<^verbatim>\<open>break\<close>: every
  register found stores into \<open>event_counter_results\<close> again.
\<close>

fun match_registers ::
  "'f results \<Rightarrow> string \<Rightarrow> 's \<Rightarrow> string option list \<Rightarrow> ('s, int) dict
     \<Rightarrow> py_error + ('s, int) dict" where
  "match_registers measured_ctrs event symb [] event_counter_results =
     Inr event_counter_results"
| "match_registers measured_ctrs event symb (r # regs) event_counter_results =
     (case map_of measured_ctrs event of
        None \<Rightarrow> Inl KeyError
      | Some (Metric x) \<Rightarrow> Inl TypeError
      | Some (Counters d) \<Rightarrow>
          (case r of
             None \<Rightarrow> match_registers measured_ctrs event symb regs event_counter_results
           | Some reg \<Rightarrow>
               (case map_of d reg of
                  None \<Rightarrow> match_registers measured_ctrs event symb regs event_counter_results
                | Some v \<Rightarrow>
                    match_registers measured_ctrs event symb regs
                      (AList.update symb v event_counter_results))))"

text \<open>
  One symbol: the generator \<^verbatim>\<open>register_options(ctr[1])\<close> is enumerated to its end, so the
  exception it ends with escapes after the registers it yielded were looked at.
\<close>

definition match_symbol ::
  "'f results \<Rightarrow> 's \<times> 'p event \<Rightarrow> ('s, int) dict \<Rightarrow> py_error + ('s, int) dict" where
  "match_symbol measured_ctrs item event_counter_results =
     (case item of
        (symb, ctr) \<Rightarrow>
          (case register_options (fst (snd ctr)) of
             (regs, err) \<Rightarrow>
               (case match_registers measured_ctrs (fst ctr) symb regs event_counter_results of
                  Inl e \<Rightarrow> Inl e
                | Inr results' \<Rightarrow> (case err of None \<Rightarrow> Inr results' | Some e \<Rightarrow> Inl e))))"

fun match_from ::
  "'f results \<Rightarrow> ('s \<times> 'p event) list \<Rightarrow> ('s, int) dict \<Rightarrow> py_error + ('s, int) dict" where
  "match_from measured_ctrs [] event_counter_results = Inr event_counter_results"
| "match_from measured_ctrs (item # items) event_counter_results =
     (case match_symbol measured_ctrs item event_counter_results of
        Inl e \<Rightarrow> Inl e
      | Inr results' \<Rightarrow> match_from measured_ctrs items results')"

text \<open>\<^verbatim>\<open>event_counter_results = {}\<close>, then the loop over \<^verbatim>\<open>event_counters.items()\<close>.\<close>

definition match_counters ::
  "('s, 'p event) dict \<Rightarrow> 'f results \<Rightarrow> py_error + ('s, int) dict" where
  "match_counters event_counters measured_ctrs = match_from measured_ctrs event_counters []"

section \<open>Notions used to state the properties\<close>

text \<open>
  The value of a string of lowercase hexadecimal digits, the digit test, and the segment
  one parameter contributes to an event string: a colon, the name, and for an integer
  value an equals sign and its hexadecimal form, the minus sign of a negative value
  standing before the \<^verbatim>\<open>0x\<close>.
\<close>

definition hex_value :: "string \<Rightarrow> nat" where
  "hex_value s = foldl (\<lambda>a c. 16 * a + index_of ''0123456789abcdef'' c) 0 s"

definition is_hexdigit :: "char \<Rightarrow> bool" where
  "is_hexdigit c = (c \<in> set ''0123456789abcdef'')"

definition param_segment :: "string \<times> int option \<Rightarrow> string" where
  "param_segment kv =
     '':'' @ fst kv @
       (case snd kv of
          None \<Rightarrow> []
        | Some v \<Rightarrow> if 0 \<le> v then ''=0x'' @ hex_digits (nat v)
                    else ''=-0x'' @ hex_digits (nat (- v)))"

text \<open>
  The registers of an expansion that are keys of the raw-counter dict \<open>d\<close>, in expansion
  order (\<^verbatim>\<open>None in d\<close> is false: the keys are strings).
\<close>

fun present_registers :: "(string, int) dict \<Rightarrow> string option list \<Rightarrow> string list" where
  "present_registers d [] = []"
| "present_registers d (None # regs) = present_registers d regs"
| "present_registers d (Some reg # regs) =
     (if dict_in reg d then reg # present_registers d regs else present_registers d regs)"

text \<open>
  The scheduler's state, as the properties speak of it: the dict of run \<open>cur_run\<close> (empty
  when the run does not exist yet), and the state after an event was placed on register
  \<open>r\<close> in that run.
\<close>

definition run_at :: "'p sched \<Rightarrow> nat \<Rightarrow> (string option, 'p placed) dict" where
  "run_at st cur_run = (case map_of (scheduled_runs st) cur_run of None \<Rightarrow> [] | Some s \<Rightarrow> s)"

definition place_at :: "nat \<Rightarrow> 'p event \<Rightarrow> string option \<Rightarrow> 'p sched \<Rightarrow> 'p sched" where
  "place_at cur_run event_tpl r st =
     \<lparr>scheduled_runs =
        AList.update cur_run
          (run_at st cur_run @ [(r, (fst event_tpl, r, snd (snd event_tpl)))])
          (scheduled_runs st),
      scheduled_events = scheduled_events st @ [event_tpl]\<rparr>"

text \<open>
  An entry of a run stands for an event when it carries the event's name and parameters
  and one of the registers the event's descriptor expands to. The runs cover a list of
  events when their entries, taken together as a multiset, are one entry for each event
  of the list.
\<close>

definition assigned :: "'p event \<Rightarrow> 'p placed \<Rightarrow> bool" where
  "assigned event_tpl entry =
     (fst entry = fst event_tpl \<and> snd (snd entry) = snd (snd event_tpl)
      \<and> fst (snd entry) \<in> set (fst (register_options (fst (snd event_tpl)))))"

definition covers :: "'p event list \<Rightarrow> 'p placed list list \<Rightarrow> bool" where
  "covers events runs =
     (\<exists>entries. list_all2 assigned events entries \<and> mset entries = mset (concat runs))"

text \<open>The invariant of the scheduling loop.\<close>

definition run_ok :: "(string option, 'p placed) dict \<Rightarrow> bool" where
  "run_ok s = (s \<noteq> [] \<and> distinct (map fst s) \<and> list_all (\<lambda>(r, entry). fst (snd entry) = r) s)"

definition sched_inv :: "nat \<Rightarrow> 'p sched \<Rightarrow> bool" where
  "sched_inv bound st =
     (list_all (\<lambda>(k, s). k < bound \<and> run_ok s) (scheduled_runs st)
      \<and> distinct (scheduled_events st)
      \<and> covers (scheduled_events st) (runs_of st))"

section \<open>Properties of the register descriptor expander\<close>

text \<open>
  Claim C6. The expander computes the documented ordered expansions:
  \<^verbatim>\<open>a-f\<close>, \<^verbatim>\<open>148\<close>, \<^verbatim>\<open>7-9ab\<close> and \<^verbatim>\<open>0B-A1\<close> through \<^verbatim>\<open>group_iterator\<close> (the range
  \<^verbatim>\<open>B-A\<close> runs backwards in the alphabet a-z, A-Z, 0-9 and is empty, not an error);
  \<^verbatim>\<open>PMC[0-3]\<close>, \<^verbatim>\<open>CBOX[0-3]C[01]\<close> (eight names, the outer group varying slowest) and
  \<^verbatim>\<open>PMC[0-1]|PMC[23]\<close> through \<^verbatim>\<open>register_options\<close>, each enumeration ending without an
  exception.
\<close>

theorem expander_examples:
  "group_iterator ''a-f'' = [''a'', ''b'', ''c'', ''d'', ''e'', ''f'']
   \<and> group_iterator ''148'' = [''1'', ''4'', ''8'']
   \<and> group_iterator ''7-9ab'' = [''7'', ''8'', ''9'', ''a'', ''b'']
   \<and> group_iterator ''0B-A1'' = [''0'', ''1'']
   \<and> char_range CHR ''B'' CHR ''A'' = []
   \<and> register_options ''PMC[0-3]'' =
       ([Some ''PMC0'', Some ''PMC1'', Some ''PMC2'', Some ''PMC3''], None)
   \<and> register_options ''CBOX[0-3]C[01]'' =
       ([Some ''CBOX0C0'', Some ''CBOX0C1'', Some ''CBOX1C0'', Some ''CBOX1C1'',
         Some ''CBOX2C0'', Some ''CBOX2C1'', Some ''CBOX3C0'', Some ''CBOX3C1''], None)
   \<and> length (fst (register_options ''CBOX[0-3]C[01]'')) = 8
   \<and> register_options ''PMC[0-1]|PMC[23]'' =
       ([Some ''PMC0'', Some ''PMC1'', Some ''PMC2'', Some ''PMC3''], None)"
  by code_simp

text \<open>
  Claim C5. Enumerating \<^verbatim>\<open>register_options('')\<close> to its end does not stop after the
  \<^verbatim>\<open>None\<close> marker: the generator goes on into the loop over \<^verbatim>\<open>''.split('|')\<close>, where
  \<^verbatim>\<open>re.match\<close> returns \<^verbatim>\<open>None\<close> on the empty alternative and \<^verbatim>\<open>m.group\<close> raises
  \<^verbatim>\<open>AttributeError\<close>. The same happens on every empty alternative (a trailing pipe).
\<close>

theorem register_options_empty_raises:
  "register_options '''' = ([None], Some AttributeError)
   \<and> register_options ''PMC0|'' = ([Some ''PMC0''], Some AttributeError)"
  by code_simp

section \<open>Properties of the event string\<close>

lemma hexdigit_props_upto:
  "list_all (\<lambda>d. index_of ''0123456789abcdef'' (hexdigit d) = d \<and> is_hexdigit (hexdigit d))
     [0..<16]"
  by code_simp

lemma hexdigit_props:
  assumes "d < 16"
  shows "index_of ''0123456789abcdef'' (hexdigit d) = d" and "is_hexdigit (hexdigit d)"
proof -
  have "d \<in> set [0..<16]" using assms by simp
  with hexdigit_props_upto
  have *: "index_of ''0123456789abcdef'' (hexdigit d) = d \<and> is_hexdigit (hexdigit d)"
    unfolding list_all_iff by blast
  from * show "index_of ''0123456789abcdef'' (hexdigit d) = d" by simp
  from * show "is_hexdigit (hexdigit d)" by simp
qed

lemma hex_value_snoc:
  "hex_value (s @ [c]) = 16 * hex_value s + index_of ''0123456789abcdef'' c"
  by (simp add: hex_value_def)

lemma hex_value_hex_digits: "hex_value (hex_digits n) = n"
proof (induction n rule: hex_digits.induct)
  case (1 n)
  show ?case
  proof (cases "n < 16")
    case True
    then show ?thesis
      using hexdigit_props(1) [of n] by (subst hex_digits.simps) (simp add: hex_value_def)
  next
    case False
    then have "hex_value (hex_digits (n div 16)) = n div 16" using 1 by simp
    moreover have "n mod 16 < 16" by simp
    ultimately show ?thesis
      using False hexdigit_props(1) [of "n mod 16"]
      by (subst hex_digits.simps) (simp add: hex_value_snoc)
  qed
qed

lemma hex_digits_lowercase: "list_all is_hexdigit (hex_digits n)"
proof (induction n rule: hex_digits.induct)
  case (1 n)
  show ?case
  proof (cases "n < 16")
    case True
    then show ?thesis
      using hexdigit_props(2) [of n] by (subst hex_digits.simps) simp
  next
    case False
    moreover have "n mod 16 < 16" by simp
    ultimately show ?thesis
      using 1 hexdigit_props(2) [of "n mod 16"]
      by (subst hex_digits.simps) simp
  qed
qed

lemma join_Cons: "join sep (x # xs) = x @ concat (map (\<lambda>y. sep @ y) xs)"
  by (induction sep "x # xs" arbitrary: x xs rule: join.induct) auto

lemma eventstr_render:
  "eventstr (event, Some reg, parameters) =
     Inr (event @ '':'' @ reg @
          concat (map param_segment
                    (sorted_items (case parameters of None \<Rightarrow> [] | Some d \<Rightarrow> d))))"
proof -
  have seg: "'':'' @ param_dscr kv = param_segment kv" for kv
    by (cases kv) (auto simp: param_dscr_def param_segment_def hex_def split: option.splits)
  have segs: "concat (map (\<lambda>y. '':'' @ y) (map param_dscr xs)) = concat (map param_segment xs)"
    for xs
    using seg by (induction xs) auto
  have main: "join '':'' ([event, reg] @ map param_dscr xs) =
      event @ '':'' @ reg @ concat (map param_segment xs)" for xs
    using segs [of xs] by (simp add: join_Cons del: join.simps)
  show ?thesis
  proof (cases parameters)
    case None
    then show ?thesis using main [of "[]"] by (simp add: eventstr_def sorted_items_def)
  next
    case (Some d)
    then show ?thesis using main [of "sorted_items d"] main [of "[]"]
      by (cases "d = []") (simp_all add: eventstr_def sorted_items_def)
  qed
qed

text \<open>
  Claim C7, as amended. \<^verbatim>\<open>eventstr\<close> renders a triple with a register name as
  \<^verbatim>\<open>NAME:REGISTER\<close> followed by one segment per parameter, the parameters in the sorted
  order of their names (a permutation of the dict's items). A parameter without a value
  contributes \<^verbatim>\<open>:NAME\<close>; a non-negative integer value \<open>v\<close> contributes \<^verbatim>\<open>:NAME=0x\<close> and the
  lowercase hexadecimal digits of \<open>v\<close>; a negative value contributes \<^verbatim>\<open>:NAME=-0x\<close> and the
  digits of \<open>- v\<close>. The digits are lowercase hexadecimal digits and denote the number.
  The two documented examples evaluate as specified.
\<close>

theorem eventstr_rendering:
  "eventstr (event, Some reg, parameters) =
     Inr (event @ '':'' @ reg @
          concat (map param_segment
                    (sorted_items (case parameters of None \<Rightarrow> [] | Some d \<Rightarrow> d))))
   \<and> sorted (map fst (sorted_items (d :: (string, int option) dict)))
   \<and> mset (sorted_items d) = mset d
   \<and> hex_value (hex_digits n) = n
   \<and> list_all is_hexdigit (hex_digits n)
   \<and> eventstr (''L1D_REPLACEMENT'', Some ''PMC0'', None) = Inr ''L1D_REPLACEMENT:PMC0''
   \<and> eventstr (''MEM_UOPS_RETIRED_LOADS'', Some ''PMC3'',
         Some [(''EDGEDETECT'', None), (''THRESHOLD'', Some 2342)]) =
       Inr ''MEM_UOPS_RETIRED_LOADS:PMC3:EDGEDETECT:THRESHOLD=0x926''"
proof -
  have "eventstr (''L1D_REPLACEMENT'', Some ''PMC0'', None) = Inr ''L1D_REPLACEMENT:PMC0''"
    by code_simp
  moreover have "eventstr (''MEM_UOPS_RETIRED_LOADS'', Some ''PMC3'',
         Some [(''EDGEDETECT'', None), (''THRESHOLD'', Some 2342)]) =
       Inr ''MEM_UOPS_RETIRED_LOADS:PMC3:EDGEDETECT:THRESHOLD=0x926''"
    by code_simp
  moreover have "sorted (map fst (sorted_items d))" "mset (sorted_items d) = mset d"
    by (simp_all add: sorted_items_def)
  ultimately show ?thesis
    using eventstr_render [of event reg parameters] hex_value_hex_digits [of n]
      hex_digits_lowercase [of n]
    by blast
qed

text \<open>
  A negative parameter value is not rendered with the prefix \<^verbatim>\<open>=0x\<close>: Python's \<^verbatim>\<open>hex\<close>
  puts the sign first.
\<close>

theorem eventstr_negative_value:
  "eventstr (''E'', Some ''PMC0'', Some [(''T'', Some (- 5))]) = Inr ''E:PMC0:T=-0x5''"
  by code_simp

section \<open>Properties of the calibration loop\<close>

text \<open>
  Claim C3. A probe that reports the runtime zero makes the measured time per repetition
  zero; the loop then takes the branch guarded by \<^verbatim>\<open>time_per_repetition == 0.0\<close> and
  evaluates \<^verbatim>\<open>0.2 // time_per_repetition\<close>, which raises \<^verbatim>\<open>ZeroDivisionError\<close>.
\<close>

theorem calibration_zero_runtime_raises:
  "calibration (\<lambda>n. 0) = Some (Inl ZeroDivisionError)"
  unfolding calibration_def
  apply (subst calibrate.simps)
  apply (simp add: py_truediv_def)
  apply (subst calibrate.simps)
  apply (simp add: py_floordiv_def)
  done

text \<open>
  The other half of the claim holds in this model: with a probe whose runtime is a
  positive multiple of the repetition count the loop returns, and the product of the time
  per repetition and the repetition count has reached the threshold.
\<close>

lemma calibrate_proportional_step:
  assumes c: "0 < c"
  shows "0 < reps \<Longrightarrow> 15 / 100 \<le> c * reps * 10 ^ k \<Longrightarrow>
     \<exists>reps'. calibrate (\<lambda>n. c * n) (c * reps, c, reps) = Some (Inr (c * reps', c, reps'))
        \<and> 15 / 100 \<le> c * reps'"
proof (induction k arbitrary: reps)
  case 0
  then show ?case by (subst calibrate.simps) auto
next
  case (Suc k)
  show ?case
  proof (cases "c * reps < 15 / 100")
    case False
    then show ?thesis by (subst calibrate.simps) auto
  next
    case True
    have "0 < reps * 10" using Suc.prems by simp
    moreover have "15 / 100 \<le> c * (reps * 10) * 10 ^ k"
      using Suc.prems by (simp add: mult.assoc mult.left_commute)
    ultimately obtain reps' where
      r: "calibrate (\<lambda>n. c * n) (c * (reps * 10), c, reps * 10) = Some (Inr (c * reps', c, reps'))"
         "15 / 100 \<le> c * reps'"
      using Suc.IH by blast
    have "calibrate (\<lambda>n. c * n) (c * reps, c, reps) =
          calibrate (\<lambda>n. c * n) (c * (reps * 10), c, reps * 10)"
      using True c Suc.prems by (subst calibrate.simps) (simp add: py_truediv_def)
    with r show ?thesis by auto
  qed
qed

lemma calibration_proportional:
  assumes c: "0 < c"
  shows "\<exists>runtime tpr reps. calibration (\<lambda>n. c * n) = Some (Inr (runtime, tpr, reps))
           \<and> 15 / 100 \<le> tpr * reps \<and> 15 / 100 \<le> runtime"
proof -
  obtain k :: nat where "15 / (100 * (c * 100)) < 10 ^ k"
    using real_arch_pow [of 10 "15 / (100 * (c * 100))"] by auto
  then have "15 / 100 \<le> c * 100 * 10 ^ k"
    using c by (simp add: field_simps)
  then obtain reps' where
    r: "calibrate (\<lambda>n. c * n) (c * 100, c, 100) = Some (Inr (c * reps', c, reps'))"
       "15 / 100 \<le> c * reps'"
    using calibrate_proportional_step [OF c, of 100 k] by auto
  have "calibration (\<lambda>n. c * n) = calibrate (\<lambda>n. c * n) (c * 100, c, 100)"
    unfolding calibration_def using c by (subst calibrate.simps) (simp add: py_truediv_def)
  with r show ?thesis by auto
qed

section \<open>Properties of the output parser\<close>

text \<open>
  Claim C8. The line \<^verbatim>\<open>A,1,2\<close> has both shapes: its second field converts to a float,
  so \<^verbatim>\<open>results['A']\<close> becomes that float, and its fields also match the event pattern,
  the register pattern and an integer. \<^verbatim>\<open>setdefault\<close> then returns the float, and the
  store into it raises \<^verbatim>\<open>TypeError\<close>, which no \<^verbatim>\<open>except\<close> clause catches. The two
  hypotheses are facts of Python: \<^verbatim>\<open>float('1')\<close> and \<^verbatim>\<open>int('2')\<close> succeed.
\<close>

theorem perfctr_parse_raises_TypeError:
  "to_float ''1'' = Some x \<Longrightarrow> to_int ''2'' = Some n \<Longrightarrow>
   perfctr_parse to_float to_int [''A,1,2''] = Inl TypeError"
  by (simp add: perfctr_parse_def perfctr_line_def setdefault_def fullmatch_event_def
      fullmatch_register_def)

theorem perfctr_parse_raises_TypeError_witness:
  "perfctr_parse (\<lambda>s. if s = ''1'' then Some (1::real) else None)
      (\<lambda>s. if s = ''2'' then Some 2 else None) [''A,1,2''] = Inl TypeError"
  using perfctr_parse_raises_TypeError [of "\<lambda>s. if s = ''1'' then Some (1::real) else None" 1
      "\<lambda>s. if s = ''2'' then Some 2 else None" 2]
  by simp

section \<open>Properties of the symbol matching\<close>

lemma match_registers_absent:
  "map_of measured_ctrs event = None \<Longrightarrow> regs \<noteq> [] \<Longrightarrow>
   match_registers measured_ctrs event symb regs ecr = Inl KeyError"
  by (cases regs) auto

lemma match_symbol_absent:
  "map_of measured_ctrs event = None \<Longrightarrow> fst (register_options descr) \<noteq> [] \<Longrightarrow>
   match_symbol measured_ctrs (symb, (event, descr, p)) ecr = Inl KeyError"
  by (auto simp: match_symbol_def match_registers_absent split: prod.splits)

lemma match_from_append:
  "match_from m (xs @ ys) ecr =
     (case match_from m xs ecr of Inl e \<Rightarrow> Inl e | Inr ecr' \<Rightarrow> match_from m ys ecr')"
  by (induction xs arbitrary: ecr) (auto split: sum.splits)

lemma match_registers_last:
  assumes "map_of measured_ctrs event = Some (Counters d)"
  shows "match_registers measured_ctrs event symb regs ecr =
     Inr (if present_registers d regs = [] then ecr
          else AList.update symb (the (map_of d (last (present_registers d regs)))) ecr)"
  using assms
proof (induction d regs arbitrary: ecr rule: present_registers.induct)
  case (1 d)
  then show ?case by simp
next
  case (2 d regs)
  then show ?case by simp
next
  case (3 d reg regs)
  then show ?case by (cases "map_of d reg") (auto simp: dict_in_def)
qed

lemma present_registers_in_dict: "reg \<in> set (present_registers d regs) \<Longrightarrow> dict_in reg d"
  by (induction d regs rule: present_registers.induct) (auto split: if_splits)

text \<open>
  Claim C4, as amended. When the expansion of the symbol's descriptor ends normally and
  the symbol's event maps to a dict of raw counters in which at least one of the expanded
  registers is a key, the symbol is bound to the counter value of the LAST such register
  in expansion order: the loop has no \<^verbatim>\<open>break\<close>, and every later match overwrites the
  binding.
\<close>

theorem match_symbol_binds_last_register:
  assumes "register_options descr = (regs, None)"
    and "map_of measured_ctrs event = Some (Counters d)"
    and "present_registers d regs \<noteq> []"
  shows "\<exists>v. map_of d (last (present_registers d regs)) = Some v
           \<and> match_symbol measured_ctrs (symb, (event, descr, p)) ecr =
               Inr (AList.update symb v ecr)"
proof -
  have "last (present_registers d regs) \<in> set (present_registers d regs)"
    using assms(3) by simp
  then have "dict_in (last (present_registers d regs)) d"
    by (rule present_registers_in_dict)
  then obtain v where v: "map_of d (last (present_registers d regs)) = Some v"
    by (auto simp: dict_in_def)
  have "match_symbol measured_ctrs (symb, (event, descr, p)) ecr = Inr (AList.update symb v ecr)"
    using assms v match_registers_last [OF assms(2), of symb regs ecr]
    by (simp add: match_symbol_def)
  with v show ?thesis by blast
qed

theorem match_symbol_binds_last_register_witness:
  "\<exists>v. map_of [(''PMC0'', 1), (''PMC1'', 2), (''PMC2'', 3)]
          (last (present_registers [(''PMC0'', 1), (''PMC1'', 2), (''PMC2'', 3)]
                   [Some ''PMC0'', Some ''PMC1'', Some ''PMC2'', Some ''PMC3''])) = Some v
     \<and> match_symbol
          [(''E'', Counters [(''PMC0'', 1), (''PMC1'', 2), (''PMC2'', 3)] :: real result_value)]
          (''s'', (''E'', ''PMC[0-3]'', None :: params)) [] =
        Inr (AList.update ''s'' v [])"
proof -
  have h1: "register_options ''PMC[0-3]'' =
      ([Some ''PMC0'', Some ''PMC1'', Some ''PMC2'', Some ''PMC3''], None)"
    by code_simp
  have h2: "map_of [(''E'', Counters [(''PMC0'', 1), (''PMC1'', 2), (''PMC2'', 3)]
                      :: real result_value)] ''E'' =
      Some (Counters [(''PMC0'', 1), (''PMC1'', 2), (''PMC2'', 3)])"
    by simp
  have h3: "present_registers [(''PMC0'', 1), (''PMC1'', 2), (''PMC2'', 3)]
      [Some ''PMC0'', Some ''PMC1'', Some ''PMC2'', Some ''PMC3''] \<noteq> []"
    by (simp add: dict_in_def)
  show ?thesis
    by (rule match_symbol_binds_last_register [OF h1 h2 h3])
qed

text \<open>
  With two of the expanded registers in the mapping, the symbol gets the value of the
  second, \<^verbatim>\<open>PMC1\<close>, not that of the first, \<^verbatim>\<open>PMC0\<close>.
\<close>

theorem match_counters_not_first_register:
  "match_counters [(''s'', (''E'', ''PMC[0-1]'', None :: params))]
      [(''E'', Counters [(''PMC0'', 1), (''PMC1'', 2)] :: real result_value)] = Inr [(''s'', 2)]
   \<and> present_registers [(''PMC0'', 1), (''PMC1'', 2)] (fst (register_options ''PMC[0-1]'')) =
       [''PMC0'', ''PMC1'']
   \<and> map_of [(''PMC0'', 1), (''PMC1'', 2 :: int)] ''PMC0'' = Some 1"
  by code_simp

text \<open>
  Claim C9, as amended. When the event of a required symbol is not a key of the combined
  mapping and the expansion of the symbol's descriptor yields at least one register, the
  matching fails with Python's own \<^verbatim>\<open>KeyError\<close>, raised by the lookup
  \<^verbatim>\<open>measured_ctrs[event]\<close> for the first register; the symbols before it have been matched.
  The source defines no error of its own for a missing counter.
\<close>

theorem match_counters_missing_event_KeyError:
  assumes "map_of measured_ctrs event = None"
    and "fst (register_options descr) \<noteq> []"
    and "match_from measured_ctrs before [] = Inr ecr"
  shows "match_counters (before @ (symb, (event, descr, p)) # after) measured_ctrs = Inl KeyError"
  using assms
  by (simp add: match_counters_def match_from_append match_symbol_absent)

theorem match_counters_missing_event_KeyError_witness:
  "match_counters
     ([(''a'', (''A'', ''PMC0'', None :: params))] @ (''s'', (''E'', ''PMC[0-3]'', None)) # [])
     [(''A'', Counters [(''PMC0'', 7)] :: real result_value)] = Inl KeyError"
proof -
  have h1: "map_of [(''A'', Counters [(''PMC0'', 7)] :: real result_value)] ''E'' = None"
    by simp
  have h2: "fst (register_options ''PMC[0-3]'') \<noteq> []"
    by code_simp
  have h3: "match_from [(''A'', Counters [(''PMC0'', 7)] :: real result_value)]
      [(''a'', (''A'', ''PMC0'', None :: params))] [] = Inr [(''a'', 7)]"
    by code_simp
  show ?thesis
    by (rule match_counters_missing_event_KeyError [OF h1 h2 h3])
qed

text \<open>The lookup fault on the smallest input: one symbol, nothing measured.\<close>

theorem match_counters_raises_raw_KeyError:
  "match_counters [(''s'', (''E'', ''PMC0'', None :: params))] ([] :: real results) = Inl KeyError"
  by code_simp

section \<open>Properties of the scheduler\<close>

lemma update_fresh: "map_of al k = None \<Longrightarrow> AList.update k v al = al @ [(k, v)]"
  by (induction al) (auto split: if_splits)

lemma update_fresh_last: "map_of al k = None \<Longrightarrow> AList.update k v (al @ [(k, w)]) = al @ [(k, v)]"
  by (induction al) (auto split: if_splits)

lemma try_registers_find:
  "try_registers cur ev regs st =
     (case find (\<lambda>r. \<not> dict_in r (run_at st cur)) regs of
        None \<Rightarrow> (st, False)
      | Some r \<Rightarrow> (place_at cur ev r st, True))"
proof (induction regs)
  case Nil
  show ?case by simp
next
  case (Cons r regs)
  show ?case
  proof (cases "map_of (scheduled_runs st) cur")
    case None
    then show ?thesis
      by (simp add: setdefault_def run_at_def place_at_def dict_in_def update_fresh_last
          update_fresh)
  next
    case (Some s)
    show ?thesis
    proof (cases "dict_in r s")
      case True
      then show ?thesis using Some Cons by (simp add: setdefault_def run_at_def)
    next
      case False
      then have "map_of s r = None" by (cases "map_of s r") (auto simp: dict_in_def)
      then have "AList.update r x s = s @ [(r, x)]" for x
        by (rule update_fresh)
      then show ?thesis using Some False
        by (simp add: setdefault_def run_at_def place_at_def)
    qed
  qed
qed

lemma schedule_event_cases:
  assumes "schedule_event cur ev st = Inr st'"
  shows "st' = st \<or>
     (ev \<notin> set (scheduled_events st) \<and>
      (\<exists>r. r \<in> set (fst (register_options (fst (snd ev)))) \<and> \<not> dict_in r (run_at st cur)
           \<and> st' = place_at cur ev r st))"
proof (cases "ev \<in> set (scheduled_events st)")
  case True
  then show ?thesis using assms by (simp add: schedule_event_def)
next
  case False
  obtain regs err where ro: "register_options (fst (snd ev)) = (regs, err)"
    by (cases "register_options (fst (snd ev))")
  show ?thesis
  proof (cases "find (\<lambda>r. \<not> dict_in r (run_at st cur)) regs")
    case None
    then show ?thesis using assms False ro
      by (auto simp: schedule_event_def try_registers_find split: option.splits)
  next
    case (Some r)
    then have "r \<in> set regs" "\<not> dict_in r (run_at st cur)"
      by (auto simp: find_Some_iff)
    then show ?thesis using assms False ro Some
      by (auto simp: schedule_event_def try_registers_find)
  qed
qed

lemma list_all_update:
  "list_all P al \<Longrightarrow> P (k, v) \<Longrightarrow> list_all P (AList.update k v al)"
  by (induction al) auto

lemma run_at_cases:
  assumes "list_all (\<lambda>(k, s). k < b \<and> run_ok s) (scheduled_runs st)"
  shows "run_at st cur = [] \<or> (run_ok (run_at st cur) \<and> cur < b)"
proof (cases "map_of (scheduled_runs st) cur")
  case None
  then show ?thesis by (simp add: run_at_def)
next
  case (Some s)
  then have "(cur, s) \<in> set (scheduled_runs st)" by (rule map_of_SomeD)
  with assms have "run_ok s \<and> cur < b" by (auto simp: list_all_iff)
  with Some show ?thesis by (simp add: run_at_def)
qed

lemma mset_entries_update:
  "mset (concat (map dict_values (dict_values
      (AList.update k ((case map_of al k of None \<Rightarrow> [] | Some s \<Rightarrow> s) @ [x]) al)))) =
   mset (concat (map dict_values (dict_values al))) + {#snd x#}"
  by (induction al) (auto simp: dict_values_def)

lemma length_runs_update:
  "length (AList.update k v al) = (if map_of al k = None then Suc (length al) else length al)"
  by (induction al) auto

lemma place_at_inv:
  assumes inv: "sched_inv (Suc cur) st"
    and free: "\<not> dict_in r (run_at st cur)"
    and cand: "r \<in> set (fst (register_options (fst (snd ev))))"
    and new: "ev \<notin> set (scheduled_events st)"
  shows "sched_inv (Suc cur) (place_at cur ev r st)"
proof -
  let ?entry = "(fst ev, r, snd (snd ev))"
  have runs: "list_all (\<lambda>(k, s). k < Suc cur \<and> run_ok s) (scheduled_runs st)"
    using inv by (simp add: sched_inv_def)
  have "run_ok (run_at st cur @ [(r, ?entry)])"
    using run_at_cases [OF runs, of cur] free
    by (auto simp: run_ok_def dict_in_def map_of_eq_None_iff)
  then have 1: "list_all (\<lambda>(k, s). k < Suc cur \<and> run_ok s) (scheduled_runs (place_at cur ev r st))"
    using runs by (simp add: place_at_def list_all_update)
  have 2: "distinct (scheduled_events (place_at cur ev r st))"
    using inv new by (simp add: sched_inv_def place_at_def)
  obtain entries where e: "list_all2 assigned (scheduled_events st) entries"
      "mset entries = mset (concat (runs_of st))"
    using inv by (auto simp: sched_inv_def covers_def)
  have "assigned ev ?entry" using cand by (simp add: assigned_def)
  then have "list_all2 assigned (scheduled_events st @ [ev]) (entries @ [?entry])"
    using e(1) by (simp add: list_all2_appendI)
  moreover have "mset (entries @ [?entry]) = mset (concat (runs_of (place_at cur ev r st)))"
    using e(2) mset_entries_update [of cur "scheduled_runs st" "(r, ?entry)"]
    by (simp add: runs_of_def place_at_def run_at_def)
  ultimately have 3: "covers (scheduled_events (place_at cur ev r st)) (runs_of (place_at cur ev r st))"
    unfolding covers_def by (auto simp: place_at_def)
  from 1 2 3 show ?thesis by (simp add: sched_inv_def)
qed

lemma schedule_event_inv:
  assumes "schedule_event cur ev st = Inr st'" and "sched_inv (Suc cur) st"
  shows "sched_inv (Suc cur) st'"
  using schedule_event_cases [OF assms(1)] assms(2) place_at_inv by blast

lemma schedule_event_events:
  assumes "schedule_event cur ev st = Inr st'"
  shows "scheduled_events st' = scheduled_events st \<or>
         (ev \<notin> set (scheduled_events st) \<and> fst (register_options (fst (snd ev))) \<noteq> []
          \<and> scheduled_events st' = scheduled_events st @ [ev])"
  using schedule_event_cases [OF assms] by (auto simp: place_at_def)

lemma sweep_inv:
  "sweep cur events st = Inr st' \<Longrightarrow> sched_inv (Suc cur) st \<Longrightarrow> sched_inv (Suc cur) st'"
proof (induction events arbitrary: st)
  case Nil
  then show ?case by simp
next
  case (Cons ev events)
  then show ?case
    by (auto split: sum.splits dest: schedule_event_inv)
qed

lemma sweep_events:
  "sweep cur events st = Inr st' \<Longrightarrow>
   \<exists>new. scheduled_events st' = scheduled_events st @ new \<and> set new \<subseteq> set events
     \<and> list_all (\<lambda>ev. fst (register_options (fst (snd ev))) \<noteq> []) new"
proof (induction events arbitrary: st)
  case Nil
  then show ?case by simp
next
  case (Cons ev events)
  from Cons.prems obtain st1 where
    s1: "schedule_event cur ev st = Inr st1" and s2: "sweep cur events st1 = Inr st'"
    by (auto split: sum.splits)
  from Cons.IH [OF s2] obtain new where
    n: "scheduled_events st' = scheduled_events st1 @ new" "set new \<subseteq> set events"
       "list_all (\<lambda>ev. fst (register_options (fst (snd ev))) \<noteq> []) new"
    by blast
  from schedule_event_events [OF s1] show ?case
  proof
    assume "scheduled_events st1 = scheduled_events st"
    with n show ?thesis by auto
  next
    assume a: "ev \<notin> set (scheduled_events st) \<and> fst (register_options (fst (snd ev))) \<noteq> []
          \<and> scheduled_events st1 = scheduled_events st @ [ev]"
    then have "scheduled_events st' = scheduled_events st @ (ev # new)" using n by simp
    moreover have "set (ev # new) \<subseteq> set (ev # events)" using n by auto
    moreover have "list_all (\<lambda>ev. fst (register_options (fst (snd ev))) \<noteq> []) (ev # new)"
      using n a by simp
    ultimately show ?thesis by blast
  qed
qed

lemma sched_inv_mono: "sched_inv b st \<Longrightarrow> b \<le> b' \<Longrightarrow> sched_inv b' st"
  by (auto simp: sched_inv_def list_all_iff)

lemma run_loop_inv_aux:
  assumes "run_loop events cur st = Some y"
  shows "sched_inv cur st \<longrightarrow> set (scheduled_events st) \<subseteq> set events \<longrightarrow>
     (\<forall>st'. y = Inr st' \<longrightarrow> (\<exists>b. sched_inv b st') \<and> length (scheduled_events st') = length events
         \<and> set (scheduled_events st') \<subseteq> set events)"
  using assms
proof (induct events cur st y rule: run_loop.raw_induct [rotated 1, consumes 1])
  case (1 rl events cur st y)
  show ?case
  proof (intro impI allI)
    fix st'
    assume inv: "sched_inv cur st" and sub: "set (scheduled_events st) \<subseteq> set events"
      and y: "y = Inr st'"
    show "(\<exists>b. sched_inv b st') \<and> length (scheduled_events st') = length events
       \<and> set (scheduled_events st') \<subseteq> set events"
    proof (cases "length (scheduled_events st) \<noteq> length events")
      case False
      then show ?thesis using 1(2) inv sub y by auto
    next
      case True
      show ?thesis
      proof (cases "sweep cur events st")
        case (Inl e)
        then show ?thesis using True 1(2) y by auto
      next
        case (Inr st1)
        then have rl: "rl events (cur + 1) st1 = Some y" using True 1(2) by simp
        have "sched_inv (Suc cur) st" using inv by (rule sched_inv_mono) simp
        then have i1: "sched_inv (cur + 1) st1" using sweep_inv [OF Inr] by simp
        have s1: "set (scheduled_events st1) \<subseteq> set events"
          using sweep_events [OF Inr] sub by auto
        from 1(1) [OF rl] i1 s1 y show ?thesis by blast
      qed
    qed
  qed
qed

lemma run_loop_inv:
  assumes "run_loop events cur st = Some (Inr st')"
    and "sched_inv cur st" and "set (scheduled_events st) \<subseteq> set events"
  shows "\<exists>b. sched_inv b st'" and "length (scheduled_events st') = length events"
    and "set (scheduled_events st') \<subseteq> set events"
  using run_loop_inv_aux [OF assms(1)] assms(2,3) by blast+


lemma index_of_nth: "x \<in> set xs \<Longrightarrow> index_of xs x < length xs \<and> xs ! index_of xs x = x"
  by (induction xs) auto

lemma set_dedup: "set (dedup xs) = set xs"
proof
  show "set (dedup xs) \<subseteq> set xs"
  proof
    fix x assume "x \<in> set (dedup xs)"
    then obtain i where "(i, x) \<in> set (enumerate 0 xs)"
      by (auto simp: dedup_def)
    then have "i < length xs" "xs ! i = x"
      by (auto simp: in_set_enumerate_eq)
    then show "x \<in> set xs" using nth_mem by blast
  qed
  show "set xs \<subseteq> set (dedup xs)"
  proof
    fix x assume "x \<in> set xs"
    then have "(index_of xs x, x) \<in> set (enumerate 0 xs)"
      using index_of_nth [of x xs] by (simp add: in_set_enumerate_eq)
    then have "(index_of xs x, x) \<in> set (filter (\<lambda>(i, e). index_of xs e = i) (enumerate 0 xs))"
      by simp
    then show "x \<in> set (dedup xs)"
      unfolding dedup_def by (metis image_eqI set_map snd_conv)
  qed
qed

lemma distinct_dedup: "distinct (dedup xs)"
proof -
  have "inj_on snd (set (filter (\<lambda>(i, e). index_of xs e = i) (enumerate 0 xs)))"
    by (auto simp: inj_on_def)
  then show ?thesis
    unfolding dedup_def by (simp add: distinct_map distinct_enumerate)
qed

lemma dedup_first_occurrence_order: "sorted_wrt (<) (map (index_of xs) (dedup xs))"
proof -
  let ?P = "\<lambda>(i, e). index_of xs e = i"
  have "map (index_of xs) (dedup xs) = map fst (filter ?P (enumerate 0 xs))"
    by (auto simp: dedup_def)
  moreover have "sorted_wrt (\<lambda>a b. fst a < fst b) (enumerate 0 xs)"
    using sorted_wrt_map [of "(<)" fst "enumerate 0 xs"] by (simp add: sorted_wrt_upt)
  then have "sorted_wrt (\<lambda>a b. fst a < fst b) (filter ?P (enumerate 0 xs))"
    by (rule sorted_wrt_filter)
  then have "sorted_wrt (<) (map fst (filter ?P (enumerate 0 xs)))"
    by (simp add: sorted_wrt_map)
  ultimately show ?thesis by simp
qed

lemma run_ok_distinct_registers:
  "run_ok s \<Longrightarrow> distinct (map (\<lambda>entry. fst (snd entry)) (dict_values s))"
proof -
  assume ok: "run_ok s"
  then have "map (\<lambda>entry. fst (snd entry)) (dict_values s) = map fst s"
    by (auto simp: run_ok_def dict_values_def list_all_iff)
  with ok show ?thesis by (simp add: run_ok_def)
qed

lemma sched_inv_runs:
  assumes "sched_inv b st"
  shows "list_all (\<lambda>run. distinct (map (\<lambda>entry. fst (snd entry)) run)) (runs_of st)"
    and "list_all (\<lambda>run. run \<noteq> []) (runs_of st)"
proof -
  have ok: "\<forall>ks \<in> set (scheduled_runs st). run_ok (snd ks)"
    using assms by (auto simp: sched_inv_def list_all_iff)
  then show "list_all (\<lambda>run. distinct (map (\<lambda>entry. fst (snd entry)) run)) (runs_of st)"
    by (auto simp: runs_of_def list_all_iff dict_values_def [of "scheduled_runs st"]
        intro: run_ok_distinct_registers)
  from ok show "list_all (\<lambda>run. run \<noteq> []) (runs_of st)"
    by (auto simp: runs_of_def list_all_iff dict_values_def run_ok_def)
qed

lemma sched_inv_init: "sched_inv 0 \<lparr>scheduled_runs = [], scheduled_events = []\<rparr>"
  by (simp add: sched_inv_def covers_def runs_of_def dict_values_def)

lemma build_minimal_runs_state:
  assumes "build_minimal_runs events = Some (Inr runs)"
  obtains st b where "runs = runs_of st" and "sched_inv b st"
    and "mset (scheduled_events st) = mset (dedup events)"
proof -
  let ?st0 = "\<lparr>scheduled_runs = [], scheduled_events = []\<rparr> :: 'a sched"
  from assms obtain st where
    rl: "run_loop (dedup events) 0 ?st0 = Some (Inr st)" and runs: "runs = runs_of st"
    by (auto simp: build_minimal_runs_def split: option.splits sum.splits)
  have sub0: "set (scheduled_events ?st0) \<subseteq> set (dedup events)" by simp
  from run_loop_inv [OF rl sched_inv_init sub0] obtain b where
    inv: "sched_inv b st" and len: "length (scheduled_events st) = length (dedup events)"
    and sub: "set (scheduled_events st) \<subseteq> set (dedup events)"
    by blast
  have d: "distinct (scheduled_events st)" using inv by (simp add: sched_inv_def)
  have "card (set (scheduled_events st)) = card (set (dedup events))"
    using d len distinct_dedup [of events] by (simp add: distinct_card)
  with sub have "set (scheduled_events st) = set (dedup events)"
    by (simp add: card_subset_eq)
  then have "mset (scheduled_events st) = mset (dedup events)"
    using d distinct_dedup [of events] by (simp add: set_eq_iff_mset_eq_distinct)
  with runs inv show thesis by (rule that)
qed

lemma covers_reorder:
  assumes "covers evs runs" and "mset evs = mset evs'"
  shows "covers evs' runs"
proof -
  from assms(1) obtain entries where
    e: "list_all2 assigned evs entries" "mset entries = mset (concat runs)"
    by (auto simp: covers_def)
  from list_all2_reorder_left_invariance [OF e(1), of evs'] assms(2)
  obtain entries' where "list_all2 assigned evs' entries'" "mset entries' = mset entries"
    by auto
  with e(2) show ?thesis by (auto simp: covers_def)
qed

lemma length_le_concat: "list_all (\<lambda>run. run \<noteq> []) runs \<Longrightarrow> length runs \<le> length (concat runs)"
proof (induction runs)
  case Nil
  show ?case by simp
next
  case (Cons run runs)
  from Cons.prems have ne: "run \<noteq> []" and rest: "list_all (\<lambda>run. run \<noteq> []) runs"
    by simp_all
  from ne have "1 \<le> length run" by (cases run) simp_all
  with Cons.IH [OF rest] show ?case by simp
qed

lemma covers_length: "covers evs runs \<Longrightarrow> length (concat runs) = length evs"
  by (metis covers_def list_all2_lengthD size_mset)

lemma sweep_progress:
  "sweep cur events st = Inr st1 \<Longrightarrow> run_at st cur = [] \<Longrightarrow>
   list_all (\<lambda>ev. fst (register_options (fst (snd ev))) \<noteq> []) events \<Longrightarrow>
   \<not> set events \<subseteq> set (scheduled_events st) \<Longrightarrow>
   length (scheduled_events st) < length (scheduled_events st1)"
proof (induction events arbitrary: st)
  case Nil
  then show ?case by simp
next
  case (Cons ev events)
  from Cons.prems(1) obtain st2 where
    s1: "schedule_event cur ev st = Inr st2" and s2: "sweep cur events st2 = Inr st1"
    by (auto split: sum.splits)
  show ?case
  proof (cases "ev \<in> set (scheduled_events st)")
    case True
    then have "st2 = st" using s1 by (simp add: schedule_event_def)
    then show ?thesis using Cons True s2 by auto
  next
    case False
    obtain r regs err where ro: "register_options (fst (snd ev)) = (r # regs, err)"
      using Cons.prems(3) by (cases "register_options (fst (snd ev))"; cases "fst (register_options (fst (snd ev)))") auto
    have "st2 = place_at cur ev r st"
      using s1 False ro Cons.prems(2)
      by (simp add: schedule_event_def try_registers_find dict_in_def)
    then have "length (scheduled_events st2) = Suc (length (scheduled_events st))"
      by (simp add: place_at_def)
    moreover have "length (scheduled_events st2) \<le> length (scheduled_events st1)"
      using sweep_events [OF s2] by auto
    ultimately show ?thesis by simp
  qed
qed

lemma run_loop_terminates:
  assumes cand: "list_all (\<lambda>ev. fst (register_options (fst (snd ev))) \<noteq> []) events"
    and dist: "distinct events"
  shows "sched_inv cur st \<Longrightarrow> set (scheduled_events st) \<subseteq> set events \<Longrightarrow>
     \<exists>r. run_loop events cur st = Some r"
proof (induction "length events - length (scheduled_events st)" arbitrary: cur st rule: less_induct)
  case less
  have d: "distinct (scheduled_events st)" using less.prems(1) by (simp add: sched_inv_def)
  show ?case
  proof (cases "length (scheduled_events st) \<noteq> length events")
    case False
    then show ?thesis by (subst run_loop.simps) simp
  next
    case True
    show ?thesis
    proof (cases "sweep cur events st")
      case (Inl e)
      then show ?thesis using True by (subst run_loop.simps) simp
    next
      case (Inr st1)
      have "sched_inv (Suc cur) st" using less.prems(1) by (rule sched_inv_mono) simp
      then have i1: "sched_inv (cur + 1) st1" using sweep_inv [OF Inr] by simp
      have s1: "set (scheduled_events st1) \<subseteq> set events"
        using sweep_events [OF Inr] less.prems(2) by auto
      have "list_all (\<lambda>(k, s). k < cur \<and> run_ok s) (scheduled_runs st)"
        using less.prems(1) by (simp add: sched_inv_def)
      from run_at_cases [OF this, of cur] have empty: "run_at st cur = []" by auto
      have "\<not> set events \<subseteq> set (scheduled_events st)"
      proof
        assume "set events \<subseteq> set (scheduled_events st)"
        with less.prems(2) have "set events = set (scheduled_events st)" by auto
        then have "length events = length (scheduled_events st)"
          using d dist by (metis distinct_card)
        with True show False by simp
      qed
      from sweep_progress [OF Inr empty cand this]
      have gt: "length (scheduled_events st) < length (scheduled_events st1)" .
      have "distinct (scheduled_events st1)" using i1 by (simp add: sched_inv_def)
      then have "length (scheduled_events st1) \<le> length events"
        using s1 dist by (metis card_mono distinct_card List.finite_set)
      with gt have "length events - length (scheduled_events st1)
          < length events - length (scheduled_events st)" by simp
      from less.hyps [OF this i1 s1] obtain r where "run_loop events (cur + 1) st1 = Some r"
        by blast
      then show ?thesis using True Inr by (subst run_loop.simps) simp
    qed
  qed
qed


text \<open>
  Claim C10. When the descriptor of every input event expands to at least one register,
  \<^verbatim>\<open>build_minimal_runs\<close> comes to an end (it returns runs, or an exception of the
  expander escapes), and whenever it returns runs, none of them is empty and there are at
  most as many runs as de-duplicated events.
\<close>

theorem build_minimal_runs_nonempty_runs:
  assumes "list_all (\<lambda>ev. fst (register_options (fst (snd ev))) \<noteq> []) events"
  shows "(\<exists>r. build_minimal_runs events = Some r)
     \<and> (\<forall>runs. build_minimal_runs events = Some (Inr runs) \<longrightarrow>
          list_all (\<lambda>run. run \<noteq> []) runs \<and> length runs \<le> length (dedup events))"
proof -
  let ?st0 = "\<lparr>scheduled_runs = [], scheduled_events = []\<rparr> :: 'a sched"
  have "list_all (\<lambda>ev. fst (register_options (fst (snd ev))) \<noteq> []) (dedup events)"
    using assms set_dedup [of events] by (simp add: list_all_iff)
  from run_loop_terminates [OF this distinct_dedup sched_inv_init]
  obtain r where "run_loop (dedup events) 0 ?st0 = Some r" by auto
  then have 1: "\<exists>r. build_minimal_runs events = Some r"
    by (cases r) (auto simp: build_minimal_runs_def)
  have 2: "list_all (\<lambda>run. run \<noteq> []) runs \<and> length runs \<le> length (dedup events)"
    if "build_minimal_runs events = Some (Inr runs)" for runs
  proof -
    from that obtain st b where st: "runs = runs_of st" "sched_inv b st"
      "mset (scheduled_events st) = mset (dedup events)"
      by (rule build_minimal_runs_state)
    have ne: "list_all (\<lambda>run. run \<noteq> []) runs" using sched_inv_runs(2) [OF st(2)] st(1) by simp
    have "covers (scheduled_events st) runs" using st by (simp add: sched_inv_def)
    then have "length (concat runs) = length (scheduled_events st)" by (rule covers_length)
    also have "\<dots> = length (dedup events)" using st(3) by (metis size_mset)
    finally show ?thesis using ne length_le_concat [OF ne] by simp
  qed
  from 1 2 show ?thesis by blast
qed

theorem build_minimal_runs_nonempty_runs_witness:
  "list_all (\<lambda>ev. fst (register_options (fst (snd ev))) \<noteq> [])
     [(''A'', ''PMC[0-1]'', None :: params), (''B'', ''PMC[0-1]'', None),
      (''C'', ''PMC[0-1]'', None), (''D'', ''PMC[0-1]'', None), (''E'', ''PMC[0-1]'', None)]
   \<and> build_minimal_runs
     [(''A'', ''PMC[0-1]'', None :: params), (''B'', ''PMC[0-1]'', None),
      (''C'', ''PMC[0-1]'', None), (''D'', ''PMC[0-1]'', None), (''E'', ''PMC[0-1]'', None)] =
     Some (Inr [[(''A'', Some ''PMC0'', None), (''B'', Some ''PMC1'', None)],
                [(''C'', Some ''PMC0'', None), (''D'', Some ''PMC1'', None)],
                [(''E'', Some ''PMC0'', None)]])
   \<and> list_all (\<lambda>run. run \<noteq> [])
        [[(''A'', Some ''PMC0'', None :: params), (''B'', Some ''PMC1'', None)],
         [(''C'', Some ''PMC0'', None), (''D'', Some ''PMC1'', None)],
         [(''E'', Some ''PMC0'', None)]]
   \<and> length [[(''A'', Some ''PMC0'', None :: params), (''B'', Some ''PMC1'', None)],
         [(''C'', Some ''PMC0'', None), (''D'', Some ''PMC1'', None)],
         [(''E'', Some ''PMC0'', None)]]
       \<le> length (dedup [(''A'', ''PMC[0-1]'', None :: params), (''B'', ''PMC[0-1]'', None),
      (''C'', ''PMC[0-1]'', None), (''D'', ''PMC[0-1]'', None), (''E'', ''PMC[0-1]'', None)])"
proof -
  have c: "list_all (\<lambda>ev. fst (register_options (fst (snd ev))) \<noteq> [])
     [(''A'', ''PMC[0-1]'', None :: params), (''B'', ''PMC[0-1]'', None),
      (''C'', ''PMC[0-1]'', None), (''D'', ''PMC[0-1]'', None), (''E'', ''PMC[0-1]'', None)]"
    by code_simp
  have h: "build_minimal_runs
     [(''A'', ''PMC[0-1]'', None :: params), (''B'', ''PMC[0-1]'', None),
      (''C'', ''PMC[0-1]'', None), (''D'', ''PMC[0-1]'', None), (''E'', ''PMC[0-1]'', None)] =
     Some (Inr [[(''A'', Some ''PMC0'', None), (''B'', Some ''PMC1'', None)],
                [(''C'', Some ''PMC0'', None), (''D'', Some ''PMC1'', None)],
                [(''E'', Some ''PMC0'', None)]])"
    by code_simp
  from build_minimal_runs_nonempty_runs [OF c] h c show ?thesis by blast
qed

lemma schedule_event_no_error:
  "snd (register_options (fst (snd ev))) = None \<Longrightarrow> \<exists>st'. schedule_event cur ev st = Inr st'"
  by (auto simp: schedule_event_def split: prod.splits bool.splits option.splits)

lemma sweep_no_error:
  "list_all (\<lambda>ev. snd (register_options (fst (snd ev))) = None) events \<Longrightarrow>
   \<exists>st'. sweep cur events st = Inr st'"
proof (induction events arbitrary: st)
  case Nil
  show ?case by simp
next
  case (Cons ev events)
  then obtain st1 where "schedule_event cur ev st = Inr st1"
    using schedule_event_no_error [of ev cur st] by auto
  with Cons show ?case by auto
qed

lemma run_loop_stuck_aux:
  assumes "run_loop events cur st = Some y"
  shows "list_all (\<lambda>ev. snd (register_options (fst (snd ev))) = None) events \<longrightarrow>
     (\<exists>ev \<in> set events. fst (register_options (fst (snd ev))) = []
          \<and> ev \<notin> set (scheduled_events st)) \<longrightarrow>
     sched_inv cur st \<longrightarrow> set (scheduled_events st) \<subseteq> set events \<longrightarrow> False"
  using assms
proof (induct events cur st y rule: run_loop.raw_induct [rotated 1, consumes 1])
  case (1 rl events cur st y)
  show ?case
  proof (intro impI)
    assume noerr: "list_all (\<lambda>ev. snd (register_options (fst (snd ev))) = None) events"
      and stuck: "\<exists>ev \<in> set events. fst (register_options (fst (snd ev))) = []
          \<and> ev \<notin> set (scheduled_events st)"
      and inv: "sched_inv cur st" and sub: "set (scheduled_events st) \<subseteq> set events"
    from stuck obtain ev where ev: "ev \<in> set events"
      "fst (register_options (fst (snd ev))) = []" "ev \<notin> set (scheduled_events st)"
      by blast
    have d: "distinct (scheduled_events st)" using inv by (simp add: sched_inv_def)
    have "set (scheduled_events st) \<subset> set events" using ev sub by auto
    then have "card (set (scheduled_events st)) < card (set events)"
      by (simp add: psubset_card_mono)
    then have "length (scheduled_events st) < length events"
      using d card_length [of events] by (simp add: distinct_card)
    then have ne: "length (scheduled_events st) \<noteq> length events" by simp
    from sweep_no_error [OF noerr] obtain st1 where sw: "sweep cur events st = Inr st1"
      by blast
    then have rl: "rl events (cur + 1) st1 = Some y" using ne 1(2) by simp
    have "sched_inv (Suc cur) st" using inv by (rule sched_inv_mono) simp
    then have i1: "sched_inv (cur + 1) st1" using sweep_inv [OF sw] by simp
    from sweep_events [OF sw] obtain new where
      new: "scheduled_events st1 = scheduled_events st @ new" "set new \<subseteq> set events"
        "list_all (\<lambda>ev. fst (register_options (fst (snd ev))) \<noteq> []) new"
      by blast
    have s1: "set (scheduled_events st1) \<subseteq> set events" using new sub by auto
    have "ev \<notin> set new" using new(3) ev(2) by (auto simp: list_all_iff)
    then have "ev \<notin> set (scheduled_events st1)" using new(1) ev(3) by simp
    then have "\<exists>ev \<in> set events. fst (register_options (fst (snd ev))) = []
          \<and> ev \<notin> set (scheduled_events st1)"
      using ev by blast
    with 1(1) [OF rl] noerr i1 s1 show False by blast
  qed
qed

lemma build_minimal_runs_diverges:
  assumes "list_all (\<lambda>ev. snd (register_options (fst (snd ev))) = None) events"
    and "ev \<in> set events" and "fst (register_options (fst (snd ev))) = []"
  shows "build_minimal_runs events = None"
proof -
  let ?st0 = "\<lparr>scheduled_runs = [], scheduled_events = []\<rparr> :: 'a sched"
  have 1: "list_all (\<lambda>ev. snd (register_options (fst (snd ev))) = None) (dedup events)"
    using assms(1) set_dedup [of events] by (simp add: list_all_iff)
  have 2: "\<exists>ev \<in> set (dedup events). fst (register_options (fst (snd ev))) = []
          \<and> ev \<notin> set (scheduled_events ?st0)"
    using assms(2,3) set_dedup [of events] by auto
  have "run_loop (dedup events) 0 ?st0 = None"
  proof (cases "run_loop (dedup events) 0 ?st0")
    case None
    then show ?thesis .
  next
    case (Some y)
    from run_loop_stuck_aux [OF Some] 1 2 sched_inv_init show ?thesis by auto
  qed
  then show ?thesis by (simp add: build_minimal_runs_def)
qed

lemma run_loop_no_error_aux:
  assumes "run_loop events cur st = Some y"
  shows "list_all (\<lambda>ev. snd (register_options (fst (snd ev))) = None) events \<longrightarrow>
     (\<forall>e. y \<noteq> Inl e)"
  using assms
proof (induct events cur st y rule: run_loop.raw_induct [rotated 1, consumes 1])
  case (1 rl events cur st y)
  show ?case
  proof (intro impI allI)
    fix e
    assume noerr: "list_all (\<lambda>ev. snd (register_options (fst (snd ev))) = None) events"
    show "y \<noteq> Inl e"
    proof (cases "length (scheduled_events st) \<noteq> length events")
      case False
      then show ?thesis using 1(2) by auto
    next
      case True
      from sweep_no_error [OF noerr] obtain st1 where sw: "sweep cur events st = Inr st1"
        by blast
      then have "rl events (cur + 1) st1 = Some y" using True 1(2) by simp
      from 1(1) [OF this] noerr show ?thesis by blast
    qed
  qed
qed

lemma build_minimal_runs_returns:
  assumes "list_all (\<lambda>ev. fst (register_options (fst (snd ev))) \<noteq> []
                         \<and> snd (register_options (fst (snd ev))) = None) events"
  shows "\<exists>runs. build_minimal_runs events = Some (Inr runs)"
proof -
  let ?st0 = "\<lparr>scheduled_runs = [], scheduled_events = []\<rparr> :: 'a sched"
  have cand: "list_all (\<lambda>ev. fst (register_options (fst (snd ev))) \<noteq> []) (dedup events)"
    using assms set_dedup [of events] by (simp add: list_all_iff)
  have noerr: "list_all (\<lambda>ev. snd (register_options (fst (snd ev))) = None) (dedup events)"
    using assms set_dedup [of events] by (simp add: list_all_iff)
  from run_loop_terminates [OF cand distinct_dedup sched_inv_init]
  obtain r where r: "run_loop (dedup events) 0 ?st0 = Some r" by auto
  from run_loop_no_error_aux [OF r] noerr obtain st where "r = Inr st"
    by (cases r) auto
  with r show ?thesis by (simp add: build_minimal_runs_def)
qed

lemma build_minimal_runs_dedup:
  "dedup events' = dedup events \<Longrightarrow> build_minimal_runs events' = build_minimal_runs events"
  by (simp add: build_minimal_runs_def)

text \<open>
  Claim C1. On an input whose descriptors each expand, without an exception, to at least
  one register, \<^verbatim>\<open>build_minimal_runs\<close> returns a list of runs. Whenever it returns runs, on
  any input: within each run the registers of the entries are pairwise distinct, and the
  entries of all runs together are, as a multiset, one entry for each event of the
  de-duplicated input (the entry carries the event's name and parameters and one of the
  registers its descriptor expands to). The de-duplicated input has no repetition, the
  same elements as the input, and keeps them in the order of their first occurrences. The
  outcome is determined by that sequence of first occurrences alone: two inputs with the
  same de-duplicated list, equal inputs among them, have the same outcome.
\<close>

theorem build_minimal_runs_sound:
  "(list_all (\<lambda>ev. fst (register_options (fst (snd ev))) \<noteq> []
                    \<and> snd (register_options (fst (snd ev))) = None) events
      \<longrightarrow> (\<exists>runs. build_minimal_runs events = Some (Inr runs)))
   \<and> (\<forall>runs. build_minimal_runs events = Some (Inr runs) \<longrightarrow>
         list_all (\<lambda>run. distinct (map (\<lambda>entry. fst (snd entry)) run)) runs
         \<and> covers (dedup events) runs)
   \<and> distinct (dedup events) \<and> set (dedup events) = set events
   \<and> sorted_wrt (<) (map (index_of events) (dedup events))
   \<and> (\<forall>events'. dedup events' = dedup events \<longrightarrow>
         build_minimal_runs events' = build_minimal_runs events)"
proof -
  have sound: "list_all (\<lambda>run. distinct (map (\<lambda>entry. fst (snd entry)) run)) runs
      \<and> covers (dedup events) runs"
    if "build_minimal_runs events = Some (Inr runs)" for runs
  proof -
    from that obtain st b where st: "runs = runs_of st" "sched_inv b st"
      "mset (scheduled_events st) = mset (dedup events)"
      by (rule build_minimal_runs_state)
    have "covers (scheduled_events st) runs" using st by (simp add: sched_inv_def)
    then have "covers (dedup events) runs" using st(3) by (rule covers_reorder)
    then show ?thesis using sched_inv_runs(1) [OF st(2)] st(1) by simp
  qed
  show ?thesis
    using build_minimal_runs_returns [of events] sound distinct_dedup [of events]
      set_dedup [of events] dedup_first_occurrence_order [of events] build_minimal_runs_dedup
    by blast
qed

theorem build_minimal_runs_sound_witness:
  "list_all (\<lambda>ev. fst (register_options (fst (snd ev))) \<noteq> []
                  \<and> snd (register_options (fst (snd ev))) = None)
     [(''A'', ''PMC[0-1]'', None :: params), (''B'', ''PMC[0-1]'', None),
      (''A'', ''PMC[0-1]'', None), (''C'', ''PMC[0-1]'', None)]
   \<and> build_minimal_runs
     [(''A'', ''PMC[0-1]'', None :: params), (''B'', ''PMC[0-1]'', None),
      (''A'', ''PMC[0-1]'', None), (''C'', ''PMC[0-1]'', None)] =
     Some (Inr [[(''A'', Some ''PMC0'', None), (''B'', Some ''PMC1'', None)],
                [(''C'', Some ''PMC0'', None)]])
   \<and> dedup [(''A'', ''PMC[0-1]'', None :: params), (''B'', ''PMC[0-1]'', None),
      (''A'', ''PMC[0-1]'', None), (''C'', ''PMC[0-1]'', None)] =
      [(''A'', ''PMC[0-1]'', None), (''B'', ''PMC[0-1]'', None), (''C'', ''PMC[0-1]'', None)]
   \<and> list_all (\<lambda>run. distinct (map (\<lambda>entry. fst (snd entry)) run))
        [[(''A'', Some ''PMC0'', None :: params), (''B'', Some ''PMC1'', None)],
         [(''C'', Some ''PMC0'', None)]]
   \<and> covers [(''A'', ''PMC[0-1]'', None :: params), (''B'', ''PMC[0-1]'', None),
              (''C'', ''PMC[0-1]'', None)]
        [[(''A'', Some ''PMC0'', None), (''B'', Some ''PMC1'', None)],
         [(''C'', Some ''PMC0'', None)]]
   \<and> build_minimal_runs
        [(''A'', ''PMC[0-1]'', None :: params), (''B'', ''PMC[0-1]'', None),
         (''C'', ''PMC[0-1]'', None)] =
      build_minimal_runs
        [(''A'', ''PMC[0-1]'', None :: params), (''B'', ''PMC[0-1]'', None),
         (''A'', ''PMC[0-1]'', None), (''C'', ''PMC[0-1]'', None)]"
proof -
  let ?events = "[(''A'', ''PMC[0-1]'', None :: params), (''B'', ''PMC[0-1]'', None),
      (''A'', ''PMC[0-1]'', None), (''C'', ''PMC[0-1]'', None)]"
  let ?short = "[(''A'', ''PMC[0-1]'', None :: params), (''B'', ''PMC[0-1]'', None),
      (''C'', ''PMC[0-1]'', None)]"
  have wf: "list_all (\<lambda>ev. fst (register_options (fst (snd ev))) \<noteq> []
                  \<and> snd (register_options (fst (snd ev))) = None) ?events"
    by code_simp
  have h: "build_minimal_runs ?events =
     Some (Inr [[(''A'', Some ''PMC0'', None), (''B'', Some ''PMC1'', None)],
                [(''C'', Some ''PMC0'', None)]])"
    by code_simp
  have d: "dedup ?events = ?short"
    by code_simp
  have d': "dedup ?short = dedup ?events"
    by code_simp
  from build_minimal_runs_sound [of ?events] have
    1: "\<forall>runs. build_minimal_runs ?events = Some (Inr runs) \<longrightarrow>
         list_all (\<lambda>run. distinct (map (\<lambda>entry. fst (snd entry)) run)) runs
         \<and> covers (dedup ?events) runs"
    and 2: "\<forall>events'. dedup events' = dedup ?events \<longrightarrow>
         build_minimal_runs events' = build_minimal_runs ?events"
    by blast+
  from 1 h have "list_all (\<lambda>run. distinct (map (\<lambda>entry. fst (snd entry)) run))
        [[(''A'', Some ''PMC0'', None :: params), (''B'', Some ''PMC1'', None)],
         [(''C'', Some ''PMC0'', None)]]
      \<and> covers (dedup ?events) [[(''A'', Some ''PMC0'', None), (''B'', Some ''PMC1'', None)],
         [(''C'', Some ''PMC0'', None)]]"
    by blast
  moreover from 2 d' have "build_minimal_runs ?short = build_minimal_runs ?events"
    by blast
  ultimately show ?thesis using wf h d by simp
qed

text \<open>
  Claim C2. The descriptor \<^verbatim>\<open>[b-a]\<close> expands to no register at all. On the event list
  holding one such event \<^verbatim>\<open>build_minimal_runs\<close> does not return and raises nothing: every
  sweep leaves the event unscheduled and the run index grows without end.
\<close>

theorem build_minimal_runs_zero_candidates_diverges: "build_minimal_runs [(''E'', ''[b-a]'', None :: params)] = None"
proof -
  have ro: "register_options ''[b-a]'' = ([], None)" by code_simp
  show ?thesis
    by (rule build_minimal_runs_diverges [where ev = "(''E'', ''[b-a]'', None)"])
      (simp_all add: ro)
qed

end
